theory Spec2Isabelle
  imports Main
begin

section \<open>Text: Python strings as lists of code points\<close>

text \<open>
  \<^verbatim>\<open>tools/parse_convos.py\<close> works on Python \<^verbatim>\<open>str\<close> values: sequences of Unicode code
  points, where \<^verbatim>\<open>len\<close> counts code points. A string is modelled as a list of code points
  (natural numbers); \<open>lit\<close> turns an ASCII literal into such a list.
\<close>

type_synonym ustr = "nat list"

definition lit :: "string \<Rightarrow> ustr" where
  "lit s = map of_char s"

definition NL :: nat where
  "NL = 10"

text \<open>
  Python's notion of white space, shared by \<^verbatim>\<open>str.strip()\<close> and by \<^verbatim>\<open>\s\<close> in a \<^verbatim>\<open>str\<close>
  pattern: the ASCII characters 9 to 13, 28 to 31 and 32, and the Unicode white space
  U+0085, U+00A0, U+1680, U+2000 to U+200A, U+2028, U+2029, U+202F, U+205F, U+3000.
\<close>

definition isspace :: "nat \<Rightarrow> bool" where
  "isspace c \<longleftrightarrow>
     (9 \<le> c \<and> c \<le> 13) \<or> (28 \<le> c \<and> c \<le> 32) \<or> c = 133 \<or> c = 160 \<or> c = 5760 \<or>
     (8192 \<le> c \<and> c \<le> 8202) \<or> c = 8232 \<or> c = 8233 \<or> c = 8239 \<or> c = 8287 \<or> c = 12288"

definition startswith :: "ustr \<Rightarrow> ustr \<Rightarrow> bool" where
  "startswith s p \<longleftrightarrow> take (length p) s = p"

definition strip :: "ustr \<Rightarrow> ustr" where
  "strip s = rev (dropWhile isspace (rev (dropWhile isspace s)))"

definition replace_char :: "nat \<Rightarrow> nat \<Rightarrow> ustr \<Rightarrow> ustr" where
  "replace_char a b s = map (\<lambda>c. if c = a then b else c) s"

definition rstrip_chars :: "nat set \<Rightarrow> ustr \<Rightarrow> ustr" where
  "rstrip_chars cs s = rev (dropWhile (\<lambda>c. c \<in> cs) (rev s))"

section \<open>The regular expressions\<close>

text \<open>
  The four patterns use literals, \<^verbatim>\<open>\s*\<close>, one optional non-capturing group, and one capture
  group holding \<^verbatim>\<open>.+\<close> or \<^verbatim>\<open>.+?\<close>. They are written as lists of items, and \<open>rx_match\<close> is
  the backtracking search of Python's \<^verbatim>\<open>re.match\<close> on them: alternatives are tried in the
  order of the engine (a greedy item takes a character first and gives it back on failure,
  a lazy one tries the rest of the pattern first), and the first success is the match.
  The third argument collects group 1.
\<close>

datatype cls = Space | Dot

fun cls_match :: "cls \<Rightarrow> nat \<Rightarrow> bool" where
  "cls_match Space c = isspace c"
| "cls_match Dot c = (c \<noteq> NL)"

datatype rx =
    Lit ustr
  | Star cls
  | Opt "rx list"
  | Cap1 cls
  | CapStarLazy cls
  | CapStarGreedy cls

fun wt :: "rx \<Rightarrow> nat" where
  "wt (Opt rs) = Suc (sum_list (map wt rs))"
| "wt _ = 1"

definition wts :: "rx list \<Rightarrow> nat" where
  "wts rs = sum_list (map wt rs)"

function rx_match :: "rx list \<Rightarrow> ustr \<Rightarrow> ustr \<Rightarrow> ustr option" where
  "rx_match [] s cap = Some cap"
| "rx_match (Lit l # r) s cap =
     (if take (length l) s = l then rx_match r (drop (length l) s) cap else None)"
| "rx_match (Star c # r) s cap =
     (case s of
        [] \<Rightarrow> rx_match r s cap
      | x # xs \<Rightarrow>
          if cls_match c x then
            (case rx_match (Star c # r) xs cap of
               Some g \<Rightarrow> Some g
             | None \<Rightarrow> rx_match r s cap)
          else rx_match r s cap)"
| "rx_match (Opt os # r) s cap =
     (case rx_match (os @ r) s cap of
        Some g \<Rightarrow> Some g
      | None \<Rightarrow> rx_match r s cap)"
| "rx_match (Cap1 c # r) s cap =
     (case s of
        [] \<Rightarrow> None
      | x # xs \<Rightarrow> if cls_match c x then rx_match r xs (cap @ [x]) else None)"
| "rx_match (CapStarLazy c # r) s cap =
     (case rx_match r s cap of
        Some g \<Rightarrow> Some g
      | None \<Rightarrow>
          (case s of
             [] \<Rightarrow> None
           | x # xs \<Rightarrow>
               if cls_match c x then rx_match (CapStarLazy c # r) xs (cap @ [x]) else None))"
| "rx_match (CapStarGreedy c # r) s cap =
     (case s of
        [] \<Rightarrow> rx_match r s cap
      | x # xs \<Rightarrow>
          if cls_match c x then
            (case rx_match (CapStarGreedy c # r) xs (cap @ [x]) of
               Some g \<Rightarrow> Some g
             | None \<Rightarrow> rx_match r s cap)
          else rx_match r s cap)"
  by pat_completeness auto
termination
  by (relation "inv_image (less_than <*lex*> less_than) (\<lambda>(rs, s, cap). (wts rs, length s))")
     (auto simp: wts_def)

definition re_match :: "rx list \<Rightarrow> ustr \<Rightarrow> ustr option" where
  "re_match p s = rx_match p s []"

text \<open>
  \<^verbatim>\<open>FILE_BEGIN_RE = re.compile(r'^---\s*BEGIN(?:\s*FILE)?:\s*(.+?)\s*---')\<close>
  \<^verbatim>\<open>FILE_END_RE = re.compile(r'^---\s*END(?:\s*FILE)?:?\s*(.+?)\s*---')\<close>
  \<^verbatim>\<open>CODEFENCE_NAME_RE = re.compile(r'^```\s*name=(.+)')\<close>
  \<^verbatim>\<open>INLINE_NAME_RE = re.compile(r'^name=(.+)')\<close>
  Each constant below is \<^verbatim>\<open>RE.match(line)\<close>: \<open>None\<close> for no match, \<open>Some g\<close> with
  \<open>g\<close> the text of group 1.
\<close>

definition FILE_BEGIN_RE :: "ustr \<Rightarrow> ustr option" where
  "FILE_BEGIN_RE = re_match
     [Lit (lit ''---''), Star Space, Lit (lit ''BEGIN''),
      Opt [Star Space, Lit (lit ''FILE'')], Lit (lit '':''), Star Space,
      Cap1 Dot, CapStarLazy Dot, Star Space, Lit (lit ''---'')]"

definition FILE_END_RE :: "ustr \<Rightarrow> ustr option" where
  "FILE_END_RE = re_match
     [Lit (lit ''---''), Star Space, Lit (lit ''END''),
      Opt [Star Space, Lit (lit ''FILE'')], Opt [Lit (lit '':'')], Star Space,
      Cap1 Dot, CapStarLazy Dot, Star Space, Lit (lit ''---'')]"

definition CODEFENCE_NAME_RE :: "ustr \<Rightarrow> ustr option" where
  "CODEFENCE_NAME_RE = re_match
     [Lit (lit ''```''), Star Space, Lit (lit ''name=''), Cap1 Dot, CapStarGreedy Dot]"

definition INLINE_NAME_RE :: "ustr \<Rightarrow> ustr option" where
  "INLINE_NAME_RE = re_match [Lit (lit ''name=''), Cap1 Dot, CapStarGreedy Dot]"

section \<open>Path normalisation\<close>

text \<open>
  \<^verbatim>\<open>normalize_path\<close>: strip white space, turn every backslash (92) into a slash (47), and
  drop one layer of double quotes (34) when the string starts and ends with one (both
  disjuncts of the source's test ask for double quotes).
  \<^verbatim>\<open>p[1:-1]\<close> of a one-character string is empty, as \<open>butlast (tl p)\<close> is.
\<close>

definition normalize_path :: "ustr \<Rightarrow> ustr" where
  "normalize_path p =
     (let p1 = strip p;
          p2 = replace_char 92 47 p1
      in if (startswith p2 [34] \<and> p2 \<noteq> [] \<and> last p2 = 34) \<or>
            (startswith p2 [34] \<and> p2 \<noteq> [] \<and> last p2 = 34)
         then butlast (tl p2) else p2)"

section \<open>The line scanner\<close>

text \<open>
  The cursor \<^verbatim>\<open>i\<close> of \<^verbatim>\<open>extract_from_file\<close> only moves forward over the immutable list
  \<^verbatim>\<open>lines\<close>, so a position is modelled by the lines from the cursor on: \<^verbatim>\<open>i < n\<close> is a
  non-empty list and \<^verbatim>\<open>lines[i]\<close> its head. A loop
  \<^verbatim>\<open>while i < n and not stop(lines[i]): buf.append(lines[i]); i += 1\<close>
  leaves \<open>takeWhile (\<lambda>l. \<not> stop l)\<close> in \<^verbatim>\<open>buf\<close> and the cursor at \<open>dropWhile (\<lambda>l. \<not> stop l)\<close>.
\<close>

definition is_fence :: "ustr \<Rightarrow> bool" where
  "is_fence l \<longleftrightarrow> startswith l (lit ''```'')"

definition is_blank :: "ustr \<Rightarrow> bool" where
  "is_blank l \<longleftrightarrow> strip l = []"

definition is_end :: "ustr \<Rightarrow> bool" where
  "is_end l \<longleftrightarrow> FILE_END_RE l \<noteq> None"

text \<open>\<^verbatim>\<open>if i < n and stop(lines[i]): i += 1\<close>\<close>

definition skip_if :: "(ustr \<Rightarrow> bool) \<Rightarrow> ustr list \<Rightarrow> ustr list" where
  "skip_if stop ls = (case ls of [] \<Rightarrow> [] | l # r \<Rightarrow> if stop l then r else l # r)"

text \<open>\<^verbatim>\<open>content = ''.join(buf).rstrip('\n') + '\n'\<close>\<close>

definition block_content :: "ustr list \<Rightarrow> ustr" where
  "block_content buf = rstrip_chars {NL} (concat buf) @ [NL]"

text \<open>
  The body loops, each from the position after the block's opening line, giving
  \<^verbatim>\<open>buf\<close> and the position where the scan resumes.
\<close>

definition explicit_body :: "ustr list \<Rightarrow> ustr list \<times> ustr list" where
  "explicit_body ls =
     (takeWhile (\<lambda>l. \<not> is_end l) ls, skip_if is_end (dropWhile (\<lambda>l. \<not> is_end l) ls))"

definition fence_body :: "ustr list \<Rightarrow> ustr list \<times> ustr list" where
  "fence_body ls =
     (takeWhile (\<lambda>l. \<not> is_fence l) ls, skip_if is_fence (dropWhile (\<lambda>l. \<not> is_fence l) ls))"

definition plain_more :: "ustr \<Rightarrow> bool" where
  "plain_more l \<longleftrightarrow> \<not> is_blank l \<and> INLINE_NAME_RE l = None \<and> FILE_BEGIN_RE l = None"

definition inline_body :: "ustr list \<Rightarrow> ustr list \<times> ustr list" where
  "inline_body ls =
     (let ls1 = dropWhile is_blank ls
      in case ls1 of
           [] \<Rightarrow> (takeWhile plain_more ls1, dropWhile plain_more ls1)
         | l # ls2 \<Rightarrow>
             if is_fence l then fence_body ls2
             else (takeWhile plain_more ls1, dropWhile plain_more ls1))"

text \<open>
  One turn of the \<^verbatim>\<open>while i < n\<close> loop at the line \<open>line\<close> followed by \<open>rest\<close>: the
  recognizers in the source's order. The result is the assignment the turn makes to
  \<^verbatim>\<open>files_map\<close> (the key and the content; the index is added by the caller), if any, and
  the position of the next turn. \<^verbatim>\<open>if found_name:\<close> is false for \<^verbatim>\<open>None\<close> and for the
  empty string.
\<close>

definition scan_step :: "ustr \<Rightarrow> ustr list \<Rightarrow> (ustr \<times> ustr) option \<times> ustr list" where
  "scan_step line rest =
     (case FILE_BEGIN_RE line of
        Some g \<Rightarrow>
          (let fname = normalize_path g; (buf, rest') = explicit_body rest
           in (Some (fname, block_content buf), rest'))
      | None \<Rightarrow>
     (case CODEFENCE_NAME_RE line of
        Some g \<Rightarrow>
          (let fname = normalize_path g; (buf, rest') = fence_body rest
           in (Some (fname, block_content buf), rest'))
      | None \<Rightarrow>
     (case INLINE_NAME_RE line of
        Some g \<Rightarrow>
          (let fname = normalize_path g; (buf, rest') = inline_body rest
           in (Some (fname, block_content buf), rest'))
      | None \<Rightarrow>
     (if is_fence line then
        (let found_name =
               (case rest of
                  [] \<Rightarrow> None
                | l # _ \<Rightarrow> map_option normalize_path (INLINE_NAME_RE l))
         in case found_name of
              None \<Rightarrow> (None, rest)
            | Some name \<Rightarrow>
                if name \<noteq> [] then
                  (let (buf, rest') = fence_body (tl rest)
                   in (Some (name, block_content buf), rest'))
                else (None, rest))
      else (None, rest)))))"

text \<open>The termination of the scan: a turn never resumes before the line after its own.\<close>

lemma length_skip_if: "length (skip_if stop ls) \<le> length ls"
  by (simp add: skip_if_def split: list.split)

lemma length_explicit_body: "length (snd (explicit_body ls)) \<le> length ls"
  unfolding explicit_body_def snd_conv
  by (rule order_trans [OF length_skip_if length_dropWhile_le])

lemma length_fence_body: "length (snd (fence_body ls)) \<le> length ls"
  unfolding fence_body_def snd_conv
  by (rule order_trans [OF length_skip_if length_dropWhile_le])

lemma length_inline_body: "length (snd (inline_body ls)) \<le> length ls"
proof (cases "dropWhile is_blank ls")
  case Nil
  show ?thesis unfolding inline_body_def Let_def Nil by simp
next
  case (Cons l ls2)
  have "length (dropWhile is_blank ls) \<le> length ls"
    by (rule length_dropWhile_le)
  then have a: "Suc (length ls2) \<le> length ls"
    unfolding Cons by simp
  show ?thesis
  proof (cases "is_fence l")
    case True
    have "length (snd (fence_body ls2)) \<le> length ls2"
      by (rule length_fence_body)
    with a True show ?thesis unfolding inline_body_def Let_def Cons by simp
  next
    case False
    have "length (dropWhile plain_more (l # ls2)) \<le> length (l # ls2)"
      by (rule length_dropWhile_le)
    with a False show ?thesis unfolding inline_body_def Let_def Cons
      by (simp del: dropWhile.simps)
  qed
qed

lemma length_scan_step: "length (snd (scan_step line rest)) \<le> length rest"
proof -
  have e: "length (snd (explicit_body rest)) \<le> length rest" by (rule length_explicit_body)
  have f: "length (snd (fence_body rest)) \<le> length rest" by (rule length_fence_body)
  have i: "length (snd (inline_body rest)) \<le> length rest" by (rule length_inline_body)
  have t: "length (snd (fence_body (tl rest))) \<le> length rest"
    by (rule order_trans [OF length_fence_body]) simp
  from e f i t show ?thesis
    by (simp add: scan_step_def Let_def split_beta split: option.split)
qed

section \<open>The registry and the extraction pass\<close>

text \<open>
  \<^verbatim>\<open>files_map\<close> is an \<^verbatim>\<open>OrderedDict\<close> from path to \<^verbatim>\<open>(convo_index, content)\<close>: an association
  list in insertion order. \<^verbatim>\<open>files_map[k] = v\<close> replaces the value of a key that is present,
  in place, and appends a new key at the end.
\<close>

type_synonym files_map = "(ustr \<times> nat \<times> ustr) list"

fun od_set :: "('k \<times> 'v) list \<Rightarrow> 'k \<Rightarrow> 'v \<Rightarrow> ('k \<times> 'v) list" where
  "od_set [] k v = [(k, v)]"
| "od_set ((k', v') # m) k v = (if k' = k then (k, v) # m else (k', v') # od_set m k v)"

function extract_loop :: "ustr list \<Rightarrow> files_map \<Rightarrow> nat \<Rightarrow> files_map" where
  "extract_loop [] files_map convo_index = files_map"
| "extract_loop (line # rest) files_map convo_index =
     (case scan_step line rest of
        (Some (fname, content), rest') \<Rightarrow>
          extract_loop rest' (od_set files_map fname (convo_index, content)) convo_index
      | (None, rest') \<Rightarrow> extract_loop rest' files_map convo_index)"
  by pat_completeness auto
termination
proof (relation "measure (\<lambda>(ls, fm, idx). length ls)")
  show "wf (measure (\<lambda>(ls, fm, idx). length ls))" by simp
next
  fix line rest and files_map :: files_map and convo_index :: nat and x y rest'
  assume "(x, rest') = scan_step line rest"
  then have "rest' = snd (scan_step line rest)" by (metis snd_conv)
  then have "length rest' \<le> length rest" by (simp add: length_scan_step)
  then show "((rest', files_map, convo_index), line # rest, files_map, convo_index)
               \<in> measure (\<lambda>(ls, fm, idx). length ls)"
    by simp
next
  fix line rest and files_map :: files_map and convo_index :: nat and x xa xb y ya rest'
  assume "(x, rest') = scan_step line rest"
  then have "rest' = snd (scan_step line rest)" by (metis snd_conv)
  then have "length rest' \<le> length rest" by (simp add: length_scan_step)
  then show "((rest', od_set files_map xb (convo_index, ya), convo_index),
               line # rest, files_map, convo_index) \<in> measure (\<lambda>(ls, fm, idx). length ls)"
    by simp
qed

text \<open>
  \<^verbatim>\<open>extract_from_file(path, files_map, unknowns_counter, convo_index)\<close>, with the lines that
  \<^verbatim>\<open>readlines()\<close> gave for \<^verbatim>\<open>path\<close> as its first argument. The dictionary is updated in place
  in the source and returned here with the function's result.
\<close>

definition extract_from_file :: "ustr list \<Rightarrow> files_map \<Rightarrow> nat \<Rightarrow> nat \<Rightarrow> files_map \<times> nat" where
  "extract_from_file lines files_map unknowns_counter convo_index =
     (extract_loop lines files_map convo_index, unknowns_counter)"

text \<open>
  The CapturedBlocks of a transcript in scan order: the assignments (path, content) that
  the turns of the loop make, one after the other.
\<close>

function captures :: "ustr list \<Rightarrow> (ustr \<times> ustr) list" where
  "captures [] = []"
| "captures (line # rest) =
     (case scan_step line rest of
        (Some b, rest') \<Rightarrow> b # captures rest'
      | (None, rest') \<Rightarrow> captures rest')"
  by pat_completeness auto
termination
proof (relation "measure length")
  show "wf (measure length)" by simp
next
  fix line rest x rest'
  assume "(x, rest') = scan_step line rest"
  then have "rest' = snd (scan_step line rest)" by (metis snd_conv)
  then have "length rest' \<le> length rest" by (simp add: length_scan_step)
  then show "(rest', line # rest) \<in> measure length" by simp
next
  fix line rest x rest' y
  assume "(x, rest') = scan_step line rest"
  then have "rest' = snd (scan_step line rest)" by (metis snd_conv)
  then have "length rest' \<le> length rest" by (simp add: length_scan_step)
  then show "(rest', line # rest) \<in> measure length" by simp
qed

section \<open>The driver\<close>

text \<open>
  \<^verbatim>\<open>main\<close> (lines 136 to 186) is not modelled as a function. Its line 166 is
  \<^verbatim>\<open>safe_path = path.lstrip('/\')\<close>: the backslash takes the quote that follows it, the
  string literal is not closed on its line, and the file is not a valid Python module. As
  shipped, the script stops with a syntax error before any of its code runs, so no
  statement below is about output files, the report, or a run of the script.
\<close>

text \<open>
  The end of a short string literal, read from the character after the opening single
  quote (39): a backslash (92) takes the next character with it, the first quote not taken
  that way closes the literal, and a newline or the end of the text before that leaves the
  literal unterminated (\<open>None\<close>). \<open>line_166_tail\<close> is line 166 from the character
  after the opening quote: slash, backslash, quote, closing parenthesis, newline.
\<close>

fun literal_end :: "ustr \<Rightarrow> ustr option" where
  "literal_end [] = None"
| "literal_end (c # cs) =
     (if c = 39 then Some cs
      else if c = NL then None
      else if c = 92 then (case cs of [] \<Rightarrow> None | d # ds \<Rightarrow> literal_end ds)
      else literal_end cs)"

definition line_166_tail :: ustr where
  "line_166_tail = [47, 92, 39, 41, NL]"

lemma line_166_unterminated: "literal_end line_166_tail = None"
  by (simp add: line_166_tail_def NL_def)

text \<open>
  What the claims about the registry need of the driver is the sequence of calls that the
  loop of lines 151 to 153 makes on one dictionary,
  \<^verbatim>\<open>for idx, p in enumerate(convo_paths, start=1):\<close>
  \<^verbatim>\<open>    unknowns_counter = extract_from_file(p, files_map, unknowns_counter, idx)\<close>
  for a list of paths in processing order. The file system's answer to
  \<^verbatim>\<open>open(p).readlines()\<close> is the parameter \<open>readlines\<close>.
\<close>

fun parse_convos ::
  "(ustr \<Rightarrow> ustr list) \<Rightarrow> ustr list \<Rightarrow> nat \<Rightarrow> files_map \<Rightarrow> nat \<Rightarrow> files_map \<times> nat" where
  "parse_convos readlines [] idx files_map unknowns_counter = (files_map, unknowns_counter)"
| "parse_convos readlines (p # ps) idx files_map unknowns_counter =
     (case extract_from_file (readlines p) files_map unknowns_counter idx of
        (files_map', unknowns_counter') \<Rightarrow>
          parse_convos readlines ps (Suc idx) files_map' unknowns_counter')"

section \<open>Properties\<close>

subsection \<open>Evaluation and the shape of the scan\<close>

text \<open>The definitions that \<open>simp\<close> unfolds to run the model on a concrete transcript.\<close>

lemmas text_defs = lit_def NL_def isspace_def startswith_def strip_def replace_char_def
  rstrip_chars_def

lemmas scan_defs = re_match_def FILE_BEGIN_RE_def FILE_END_RE_def CODEFENCE_NAME_RE_def
  INLINE_NAME_RE_def normalize_path_def is_fence_def is_blank_def is_end_def skip_if_def
  block_content_def explicit_body_def fence_body_def plain_more_def inline_body_def
  scan_step_def Let_def

text \<open>\<open>register idx\<close> is the assignment \<^verbatim>\<open>files_map[fname] = (convo_index, content)\<close>.\<close>

definition register :: "nat \<Rightarrow> files_map \<Rightarrow> ustr \<times> ustr \<Rightarrow> files_map" where
  "register idx fm b = od_set fm (fst b) (idx, snd b)"

lemma scan_induct [case_names Nil Step]:
  assumes "P []" and "\<And>line rest. P (snd (scan_step line rest)) \<Longrightarrow> P (line # rest)"
  shows "P ls"
proof (induction ls rule: captures.induct)
  case 1
  show ?case by (rule assms(1))
next
  case (2 line rest)
  obtain x y where s: "(x, y) = scan_step line rest" by (metis surj_pair)
  then have y: "y = snd (scan_step line rest)" by (metis snd_conv)
  have "P y"
  proof (cases x)
    case None
    with s show ?thesis by (rule 2(1))
  next
    case (Some b)
    with s show ?thesis by (rule 2(2))
  qed
  with y show ?case by (simp add: assms(2))
qed

lemma captures_step:
  "captures (line # rest) =
     (case fst (scan_step line rest) of
        Some b \<Rightarrow> b # captures (snd (scan_step line rest))
      | None \<Rightarrow> captures (snd (scan_step line rest)))"
  by (simp add: captures.simps(2) split: prod.splits option.splits)

lemma extract_loop_step:
  "extract_loop (line # rest) fm idx =
     (case fst (scan_step line rest) of
        Some b \<Rightarrow> extract_loop (snd (scan_step line rest)) (register idx fm b) idx
      | None \<Rightarrow> extract_loop (snd (scan_step line rest)) fm idx)"
  by (simp add: extract_loop.simps(2) register_def split: prod.splits option.splits)

declare captures.simps(2) [simp del] extract_loop.simps(2) [simp del]

lemma extract_loop_captures:
  "extract_loop ls fm idx = foldl (register idx) fm (captures ls)"
proof (induction ls arbitrary: fm rule: scan_induct)
  case Nil
  show ?case by simp
next
  case (Step line rest)
  show ?case
    unfolding captures_step extract_loop_step
    by (simp add: Step split: option.split)
qed

subsection \<open>Trailing newline\<close>

text \<open>A text ends with exactly one newline: it ends with one, and not with two.\<close>

definition one_trailing_newline :: "ustr \<Rightarrow> bool" where
  "one_trailing_newline c \<longleftrightarrow>
     c \<noteq> [] \<and> last c = NL \<and> (butlast c = [] \<or> last (butlast c) \<noteq> NL)"

lemma rstrip_chars_last: "rstrip_chars cs s = [] \<or> last (rstrip_chars cs s) \<notin> cs"
proof (cases "dropWhile (\<lambda>c. c \<in> cs) (rev s)")
  case Nil
  then show ?thesis by (simp add: rstrip_chars_def)
next
  case (Cons y ys)
  then have "y \<notin> cs" using hd_dropWhile [of "\<lambda>c. c \<in> cs" "rev s"] by simp
  with Cons show ?thesis by (simp add: rstrip_chars_def)
qed

lemma block_content_one_nl: "one_trailing_newline (block_content buf)"
  using rstrip_chars_last [of "{NL}" "concat buf"]
  by (auto simp: one_trailing_newline_def block_content_def)

lemma scan_step_content:
  "scan_step line rest = (Some (p, c), r) \<Longrightarrow> \<exists>buf. c = block_content buf"
  unfolding scan_step_def Let_def
  by (auto split: option.splits prod.splits if_splits)

lemma captures_content:
  "(p, c) \<in> set (captures ls) \<Longrightarrow> \<exists>buf. c = block_content buf"
proof (induction ls rule: scan_induct)
  case Nil
  then show ?case by simp
next
  case (Step line rest)
  show ?case
  proof (cases "fst (scan_step line rest)")
    case None
    with Step show ?thesis by (simp add: captures_step)
  next
    case (Some b)
    from Some have "scan_step line rest = (Some (fst b, snd b), snd (scan_step line rest))"
      by (metis prod.collapse)
    then have "\<exists>buf. snd b = block_content buf" by (rule scan_step_content)
    with Some Step show ?thesis by (auto simp: captures_step)
  qed
qed

lemma rstrip_chars_append_in:
  "set t \<subseteq> cs \<Longrightarrow> rstrip_chars cs (s @ t) = rstrip_chars cs s"
  by (simp add: rstrip_chars_def dropWhile_append subset_iff)

lemma block_content_more_newlines:
  "block_content (buf @ replicate k [NL]) = block_content buf"
proof -
  have c: "concat (replicate k [NL]) = replicate k NL"
    by (induction k) simp_all
  have "rstrip_chars {NL} (concat buf @ replicate k NL) = rstrip_chars {NL} (concat buf)"
    by (rule rstrip_chars_append_in) (auto simp: set_replicate_conv_if)
  with c show ?thesis by (simp add: block_content_def)
qed

lemma set_od_set: "set (od_set m k v) \<subseteq> insert (k, v) (set m)"
  by (induction m) (auto split: if_splits)

lemma set_register_all:
  "set (foldl (register idx) fm bs) \<subseteq> set fm \<union> (\<lambda>b. (fst b, idx, snd b)) ` set bs"
proof (induction bs rule: rev_induct)
  case Nil
  show ?case by simp
next
  case (snoc b bs)
  have "set (foldl (register idx) fm (bs @ [b])) \<subseteq>
      insert (fst b, idx, snd b) (set (foldl (register idx) fm bs))"
    by (simp add: register_def set_od_set)
  with snoc show ?case by auto
qed

lemma registry_content:
  assumes "e \<in> set (fst (extract_from_file ls [] uc idx))"
  shows "one_trailing_newline (snd (snd e))"
proof -
  from assms have "e \<in> set (foldl (register idx) [] (captures ls))"
    by (simp add: extract_from_file_def extract_loop_captures)
  with set_register_all [of idx "[]" "captures ls"]
  obtain b where "b \<in> set (captures ls)" and e: "e = (fst b, idx, snd b)" by auto
  then have "(fst b, snd b) \<in> set (captures ls)" by simp
  then obtain buf where "snd b = block_content buf" using captures_content by blast
  with e show ?thesis by (simp add: block_content_one_nl)
qed

text \<open>
  C6. Every CapturedBlock of a transcript, whichever recognizer produced it, has a content
  that ends with exactly one newline, and so has every record that the extraction pass
  leaves in a registry that was empty; lines that consist of a newline only, added at the
  end of the captured span, do not change the content; and a span of zero lines gives the
  content of one newline.
\<close>

theorem trailing_newline_normalized:
  "(\<forall>b \<in> set (captures ls). one_trailing_newline (snd b)) \<and>
   (\<forall>e \<in> set (fst (extract_from_file ls [] uc idx)). one_trailing_newline (snd (snd e))) \<and>
   block_content (buf @ replicate k [NL]) = block_content buf \<and>
   block_content [] = [NL]"
proof (intro conjI ballI)
  fix b assume "b \<in> set (captures ls)"
  then have "(fst b, snd b) \<in> set (captures ls)" by simp
  then obtain buf' where "snd b = block_content buf'" using captures_content by blast
  then show "one_trailing_newline (snd b)" by (simp add: block_content_one_nl)
next
  fix e assume "e \<in> set (fst (extract_from_file ls [] uc idx))"
  then show "one_trailing_newline (snd (snd e))" by (rule registry_content)
next
  show "block_content (buf @ replicate k [NL]) = block_content buf"
    by (rule block_content_more_newlines)
next
  show "block_content [] = [NL]" by (simp add: block_content_def rstrip_chars_def)
qed

theorem trailing_newline_normalized_witness:
  "captures [lit ''name=a.txt\<newline>'', lit ''hello\<newline>'', lit ''\<newline>'', lit ''\<newline>''] =
     [(lit ''a.txt'', lit ''hello\<newline>'')] \<and>
   fst (extract_from_file [lit ''name=a.txt\<newline>'', lit ''hello\<newline>'', lit ''\<newline>'', lit ''\<newline>''] [] 0 1) =
     [(lit ''a.txt'', 1, lit ''hello\<newline>'')] \<and>
   one_trailing_newline (lit ''hello\<newline>'') \<and>
   block_content ([lit ''hello\<newline>''] @ replicate 2 [NL]) = lit ''hello\<newline>''"
proof -
  let ?ls = "[lit ''name=a.txt\<newline>'', lit ''hello\<newline>'', lit ''\<newline>'', lit ''\<newline>'']"
  have c: "captures ?ls = [(lit ''a.txt'', lit ''hello\<newline>'')]"
    by (simp add: captures_step text_defs scan_defs)
  have e: "fst (extract_from_file ?ls [] 0 1) = [(lit ''a.txt'', 1, lit ''hello\<newline>'')]"
    unfolding extract_from_file_def extract_loop_captures c by (simp add: register_def)
  have b: "block_content [lit ''hello\<newline>''] = lit ''hello\<newline>''"
    by (simp add: text_defs scan_defs)
  from trailing_newline_normalized [where ls = ?ls and buf = "[lit ''hello\<newline>'']" and k = 2
      and uc = 0 and idx = 1] c e b
  show ?thesis by simp
qed

subsection \<open>The recognizers, case by case\<close>

lemma explicit_body_closed:
  assumes "\<forall>l \<in> set body. \<not> is_end l" and "is_end e"
  shows "explicit_body (body @ e # rest) = (body, rest)"
  using assms by (simp add: explicit_body_def skip_if_def takeWhile_append2 dropWhile_append2)

lemma explicit_body_open:
  assumes "\<forall>l \<in> set rest. \<not> is_end l"
  shows "explicit_body rest = (rest, [])"
proof -
  have d: "dropWhile (\<lambda>l. \<not> is_end l) rest = []" using assms by simp
  have t: "takeWhile (\<lambda>l. \<not> is_end l) rest = rest" using assms by simp
  show ?thesis unfolding explicit_body_def d t by (simp add: skip_if_def)
qed

lemma fence_body_closed:
  assumes "\<forall>l \<in> set body. \<not> is_fence l" and "is_fence c"
  shows "fence_body (body @ c # rest) = (body, rest)"
  using assms by (simp add: fence_body_def skip_if_def takeWhile_append2 dropWhile_append2)

lemma fence_body_open:
  assumes "\<forall>l \<in> set rest. \<not> is_fence l"
  shows "fence_body rest = (rest, [])"
proof -
  have d: "dropWhile (\<lambda>l. \<not> is_fence l) rest = []" using assms by simp
  have t: "takeWhile (\<lambda>l. \<not> is_fence l) rest = rest" using assms by simp
  show ?thesis unfolding fence_body_def d t by (simp add: skip_if_def)
qed

lemma strip_eq_Nil: "strip s = [] \<longleftrightarrow> (\<forall>c \<in> set s. isspace c)"
proof
  assume "strip s = []"
  then have a: "\<forall>c \<in> set (dropWhile isspace s). isspace c"
    by (simp add: strip_def)
  have "dropWhile isspace s = []"
  proof (cases "dropWhile isspace s")
    case Nil
    then show ?thesis .
  next
    case (Cons y ys)
    then have "\<not> isspace y" using hd_dropWhile [of isspace s] by simp
    with a Cons show ?thesis by simp
  qed
  then show "\<forall>c \<in> set s. isspace c" by simp
next
  assume "\<forall>c \<in> set s. isspace c"
  then have d: "dropWhile isspace s = []" by simp
  show "strip s = []" unfolding strip_def d by simp
qed

lemma is_fence_iff: "is_fence l \<longleftrightarrow> (\<exists>t. l = 96 # 96 # 96 # t)"
proof
  assume f: "is_fence l"
  then have "take (Suc (Suc (Suc 0))) l = [96, 96, 96]"
    by (simp add: is_fence_def startswith_def lit_def)
  then show "\<exists>t. l = 96 # 96 # 96 # t"
  proof (cases l)
    case Nil
    assume "take (Suc (Suc (Suc 0))) l = [96, 96, 96]"
    with Nil show ?thesis by simp
  next
    case (Cons a l1)
    assume t: "take (Suc (Suc (Suc 0))) l = [96, 96, 96]"
    show ?thesis
    proof (cases l1)
      case Nil
      with Cons t show ?thesis by simp
    next
      case c2: (Cons b l2)
      show ?thesis
      proof (cases l2)
        case Nil
        with Cons c2 t show ?thesis by simp
      next
        case c3: (Cons c l3)
        with Cons c2 t show ?thesis by simp
      qed
    qed
  qed
next
  assume "\<exists>t. l = 96 # 96 # 96 # t"
  then show "is_fence l"
    by (auto simp: is_fence_def startswith_def lit_def)
qed

lemma fence_not_blank: "is_fence l \<Longrightarrow> \<not> is_blank l"
proof
  assume "is_fence l" and "is_blank l"
  then obtain t where "l = 96 # 96 # 96 # t" and "\<forall>c \<in> set l. isspace c"
    by (auto simp: is_fence_iff is_blank_def strip_eq_Nil)
  then have "isspace 96" by simp
  then show False by (simp add: isspace_def)
qed

lemma inline_body_fenced:
  assumes "\<forall>l \<in> set blanks. is_blank l" and "is_fence opener"
  shows "inline_body (blanks @ opener # rest) = fence_body rest"
  using assms fence_not_blank [OF assms(2)]
  by (simp add: inline_body_def dropWhile_append2)

lemma inline_body_plain:
  assumes "\<forall>l \<in> set blanks. is_blank l"
    and "ls = [] \<or> (\<not> is_blank (hd ls) \<and> \<not> is_fence (hd ls))"
  shows "inline_body (blanks @ ls) = (takeWhile plain_more ls, dropWhile plain_more ls)"
proof -
  have d: "dropWhile is_blank (blanks @ ls) = ls"
  proof (cases ls)
    case Nil
    with assms(1) show ?thesis by simp
  next
    case (Cons l ls')
    with assms show ?thesis by (simp add: dropWhile_append2)
  qed
  show ?thesis
  proof (cases ls)
    case Nil
    show ?thesis unfolding inline_body_def Let_def d unfolding Nil by simp
  next
    case (Cons l ls')
    with assms(2) have "\<not> is_fence l" by simp
    then show ?thesis unfolding inline_body_def Let_def d unfolding Cons by simp
  qed
qed

lemma fence_not_begin: "is_fence l \<Longrightarrow> FILE_BEGIN_RE l = None"
  by (auto simp: is_fence_iff FILE_BEGIN_RE_def re_match_def lit_def)

lemma fence_not_inline: "is_fence l \<Longrightarrow> INLINE_NAME_RE l = None"
  by (auto simp: is_fence_iff INLINE_NAME_RE_def re_match_def lit_def)

lemma scan_step_explicit:
  "FILE_BEGIN_RE line = Some g \<Longrightarrow>
   scan_step line rest =
     (Some (normalize_path g, block_content (fst (explicit_body rest))), snd (explicit_body rest))"
  by (simp add: scan_step_def Let_def split_beta)

lemma scan_step_named_fence:
  "FILE_BEGIN_RE line = None \<Longrightarrow> CODEFENCE_NAME_RE line = Some g \<Longrightarrow>
   scan_step line rest =
     (Some (normalize_path g, block_content (fst (fence_body rest))), snd (fence_body rest))"
  by (simp add: scan_step_def Let_def split_beta)

lemma scan_step_inline:
  "FILE_BEGIN_RE line = None \<Longrightarrow> CODEFENCE_NAME_RE line = None \<Longrightarrow>
   INLINE_NAME_RE line = Some g \<Longrightarrow>
   scan_step line rest =
     (Some (normalize_path g, block_content (fst (inline_body rest))), snd (inline_body rest))"
  by (simp add: scan_step_def Let_def split_beta)

lemma scan_step_embedded:
  "is_fence line \<Longrightarrow> CODEFENCE_NAME_RE line = None \<Longrightarrow> INLINE_NAME_RE l' = Some g \<Longrightarrow>
   normalize_path g \<noteq> [] \<Longrightarrow>
   scan_step line (l' # rest) =
     (Some (normalize_path g, block_content (fst (fence_body rest))), snd (fence_body rest))"
  by (simp add: scan_step_def Let_def split_beta fence_not_begin fence_not_inline)

lemma scan_step_embedded_empty:
  "is_fence line \<Longrightarrow> CODEFENCE_NAME_RE line = None \<Longrightarrow> INLINE_NAME_RE l' = Some g \<Longrightarrow>
   normalize_path g = [] \<Longrightarrow>
   scan_step line (l' # rest) = (None, l' # rest)"
  by (simp add: scan_step_def Let_def split_beta fence_not_begin fence_not_inline)

lemma extract_from_file_step:
  "scan_step line rest = (Some (p, c), rest') \<Longrightarrow>
   extract_from_file (line # rest) fm uc idx = extract_from_file rest' (od_set fm p (idx, c)) uc idx"
  by (simp add: extract_from_file_def extract_loop_step register_def)

subsection \<open>Explicit markers\<close>

text \<open>
  C4. A block opened by a begin marker is closed by the first following line of the shape
  of an end marker, whatever path that line names (\<open>g'\<close> is not constrained and is not
  compared with \<open>g\<close>). The turn of the loop at the begin marker gives the block with the
  lines in between as its content, without the end marker, and leaves the cursor on the
  line after the end marker: the end marker is consumed, it is not the line of the next
  turn. The pass goes on from there.
\<close>

theorem end_marker_shape_only:
  assumes "FILE_BEGIN_RE b = Some g"
    and "\<forall>l \<in> set body. FILE_END_RE l = None"
    and "FILE_END_RE e = Some g'"
  shows "scan_step b (body @ e # rest) =
           (Some (normalize_path g, block_content body), rest) \<and>
         extract_from_file (b # body @ e # rest) fm uc idx =
           extract_from_file rest (od_set fm (normalize_path g) (idx, block_content body)) uc idx"
proof -
  have "explicit_body (body @ e # rest) = (body, rest)"
    using assms(2,3) by (intro explicit_body_closed) (simp_all add: is_end_def)
  with assms(1) have s: "scan_step b (body @ e # rest) =
      (Some (normalize_path g, block_content body), rest)"
    by (simp add: scan_step_explicit)
  from s have "extract_from_file (b # body @ e # rest) fm uc idx =
      extract_from_file rest (od_set fm (normalize_path g) (idx, block_content body)) uc idx"
    by (rule extract_from_file_step)
  with s show ?thesis by simp
qed

theorem end_marker_shape_only_witness:
  "scan_step (lit ''--- BEGIN FILE: a ---\<newline>'')
     [lit ''hello\<newline>'', lit ''--- END FILE: b ---\<newline>'', lit ''tail\<newline>''] =
     (Some (lit ''a'', lit ''hello\<newline>''), [lit ''tail\<newline>'']) \<and>
   extract_from_file
     [lit ''--- BEGIN FILE: a ---\<newline>'', lit ''hello\<newline>'', lit ''--- END FILE: b ---\<newline>'',
      lit ''tail\<newline>''] [] 0 1 =
   ([(lit ''a'', 1, lit ''hello\<newline>'')], 0)"
proof -
  have 1: "FILE_BEGIN_RE (lit ''--- BEGIN FILE: a ---\<newline>'') = Some (lit ''a'')"
    by (simp add: text_defs scan_defs)
  have 2: "\<forall>l \<in> set [lit ''hello\<newline>'']. FILE_END_RE l = None"
    by (simp add: text_defs scan_defs)
  have 3: "FILE_END_RE (lit ''--- END FILE: b ---\<newline>'') = Some (lit ''b'')"
    by (simp add: text_defs scan_defs)
  have n: "normalize_path (lit ''a'') = lit ''a'' \<and>
      block_content [lit ''hello\<newline>''] = lit ''hello\<newline>''"
    by (simp add: text_defs scan_defs)
  have 4: "extract_from_file [lit ''tail\<newline>''] [(lit ''a'', 1, lit ''hello\<newline>'')] 0 1 =
      ([(lit ''a'', 1, lit ''hello\<newline>'')], 0)"
    by (simp add: extract_from_file_def extract_loop_step text_defs scan_defs)
  from end_marker_shape_only [OF 1 2 3, of "[lit ''tail\<newline>'']" "[]" 0 1] n 4
  show ?thesis by simp
qed

subsection \<open>Blocks with no terminator\<close>

lemma extract_from_file_Nil: "extract_from_file [] fm uc idx = (fm, uc)"
  by (simp add: extract_from_file_def)

text \<open>
  C5. A recognized block whose terminator never comes takes every remaining line of the
  transcript as its content, and the pass returns normally with the block registered. The
  five cases are the explicit marker with no end marker, the named fence with no closing
  fence, the inline name followed by blank lines and a fence that is never closed (the
  lines after the opening fence are the content), the inline name followed by blank lines
  and plain lines up to the end of the input (the lines after the skipped blank lines are
  the content), and the fence with an embedded name and no closing fence.
\<close>

theorem unterminated_block_captures_rest:
  "(FILE_BEGIN_RE b = Some g \<and> (\<forall>l \<in> set rest. FILE_END_RE l = None) \<longrightarrow>
      extract_from_file (b # rest) fm uc idx =
        (od_set fm (normalize_path g) (idx, block_content rest), uc)) \<and>
   (FILE_BEGIN_RE b = None \<and> CODEFENCE_NAME_RE b = Some g \<and> (\<forall>l \<in> set rest. \<not> is_fence l) \<longrightarrow>
      extract_from_file (b # rest) fm uc idx =
        (od_set fm (normalize_path g) (idx, block_content rest), uc)) \<and>
   (FILE_BEGIN_RE b = None \<and> CODEFENCE_NAME_RE b = None \<and> INLINE_NAME_RE b = Some g \<and>
    (\<forall>l \<in> set blanks. is_blank l) \<and> is_fence opener \<and> (\<forall>l \<in> set rest. \<not> is_fence l) \<longrightarrow>
      extract_from_file (b # blanks @ opener # rest) fm uc idx =
        (od_set fm (normalize_path g) (idx, block_content rest), uc)) \<and>
   (FILE_BEGIN_RE b = None \<and> CODEFENCE_NAME_RE b = None \<and> INLINE_NAME_RE b = Some g \<and>
    (\<forall>l \<in> set blanks. is_blank l) \<and> (\<forall>l \<in> set rest. plain_more l) \<and>
    (rest = [] \<or> \<not> is_fence (hd rest)) \<longrightarrow>
      extract_from_file (b # blanks @ rest) fm uc idx =
        (od_set fm (normalize_path g) (idx, block_content rest), uc)) \<and>
   (is_fence b \<and> CODEFENCE_NAME_RE b = None \<and> INLINE_NAME_RE nm = Some g \<and>
    normalize_path g \<noteq> [] \<and> (\<forall>l \<in> set rest. \<not> is_fence l) \<longrightarrow>
      extract_from_file (b # nm # rest) fm uc idx =
        (od_set fm (normalize_path g) (idx, block_content rest), uc))"
proof (intro conjI impI)
  assume a: "FILE_BEGIN_RE b = Some g \<and> (\<forall>l \<in> set rest. FILE_END_RE l = None)"
  then have "explicit_body rest = (rest, [])"
    by (intro explicit_body_open) (simp add: is_end_def)
  with a have "scan_step b rest = (Some (normalize_path g, block_content rest), [])"
    by (simp add: scan_step_explicit)
  then show "extract_from_file (b # rest) fm uc idx =
      (od_set fm (normalize_path g) (idx, block_content rest), uc)"
    by (simp add: extract_from_file_step extract_from_file_Nil)
next
  assume a: "FILE_BEGIN_RE b = None \<and> CODEFENCE_NAME_RE b = Some g \<and>
    (\<forall>l \<in> set rest. \<not> is_fence l)"
  then have "fence_body rest = (rest, [])"
    by (intro fence_body_open) simp
  with a have "scan_step b rest = (Some (normalize_path g, block_content rest), [])"
    by (simp add: scan_step_named_fence)
  then show "extract_from_file (b # rest) fm uc idx =
      (od_set fm (normalize_path g) (idx, block_content rest), uc)"
    by (simp add: extract_from_file_step extract_from_file_Nil)
next
  assume a: "FILE_BEGIN_RE b = None \<and> CODEFENCE_NAME_RE b = None \<and> INLINE_NAME_RE b = Some g \<and>
    (\<forall>l \<in> set blanks. is_blank l) \<and> is_fence opener \<and> (\<forall>l \<in> set rest. \<not> is_fence l)"
  then have "fence_body rest = (rest, [])"
    by (intro fence_body_open) simp
  moreover from a have "inline_body (blanks @ opener # rest) = fence_body rest"
    by (intro inline_body_fenced) simp_all
  ultimately have "scan_step b (blanks @ opener # rest) =
      (Some (normalize_path g, block_content rest), [])"
    using a by (simp add: scan_step_inline)
  then show "extract_from_file (b # blanks @ opener # rest) fm uc idx =
      (od_set fm (normalize_path g) (idx, block_content rest), uc)"
    by (simp add: extract_from_file_step extract_from_file_Nil)
next
  assume a: "FILE_BEGIN_RE b = None \<and> CODEFENCE_NAME_RE b = None \<and> INLINE_NAME_RE b = Some g \<and>
    (\<forall>l \<in> set blanks. is_blank l) \<and> (\<forall>l \<in> set rest. plain_more l) \<and>
    (rest = [] \<or> \<not> is_fence (hd rest))"
  then have p: "\<forall>l \<in> set rest. plain_more l" by simp
  have t: "takeWhile plain_more rest = rest" using p by simp
  have d: "dropWhile plain_more rest = []" using p by simp
  have "rest = [] \<or> (\<not> is_blank (hd rest) \<and> \<not> is_fence (hd rest))"
  proof (cases rest)
    case Nil
    then show ?thesis by simp
  next
    case (Cons l ls)
    with p have "plain_more l" by simp
    with a Cons show ?thesis by (simp add: plain_more_def)
  qed
  with a have "inline_body (blanks @ rest) =
      (takeWhile plain_more rest, dropWhile plain_more rest)"
    by (intro inline_body_plain) simp_all
  then have "inline_body (blanks @ rest) = (rest, [])"
    unfolding t d .
  with a have "scan_step b (blanks @ rest) = (Some (normalize_path g, block_content rest), [])"
    by (simp add: scan_step_inline)
  then show "extract_from_file (b # blanks @ rest) fm uc idx =
      (od_set fm (normalize_path g) (idx, block_content rest), uc)"
    by (simp add: extract_from_file_step extract_from_file_Nil)
next
  assume a: "is_fence b \<and> CODEFENCE_NAME_RE b = None \<and> INLINE_NAME_RE nm = Some g \<and>
    normalize_path g \<noteq> [] \<and> (\<forall>l \<in> set rest. \<not> is_fence l)"
  then have "fence_body rest = (rest, [])"
    by (intro fence_body_open) simp
  with a have "scan_step b (nm # rest) = (Some (normalize_path g, block_content rest), [])"
    by (simp add: scan_step_embedded)
  then show "extract_from_file (b # nm # rest) fm uc idx =
      (od_set fm (normalize_path g) (idx, block_content rest), uc)"
    by (simp add: extract_from_file_step extract_from_file_Nil)
qed

theorem unterminated_block_captures_rest_witness:
  "extract_from_file [lit ''--- BEGIN FILE: a.txt ---\<newline>'', lit ''x\<newline>'', lit ''y\<newline>''] [] 0 1 =
     ([(lit ''a.txt'', 1, lit ''x\<newline>y\<newline>'')], 0) \<and>
   extract_from_file [lit ''```name=b.py\<newline>'', lit ''x\<newline>'', lit ''y\<newline>''] [] 0 1 =
     ([(lit ''b.py'', 1, lit ''x\<newline>y\<newline>'')], 0) \<and>
   extract_from_file [lit ''name=c.go\<newline>'', lit ''\<newline>'', lit ''```go\<newline>'', lit ''x\<newline>'', lit ''y\<newline>''] [] 0 1 =
     ([(lit ''c.go'', 1, lit ''x\<newline>y\<newline>'')], 0) \<and>
   extract_from_file [lit ''name=d.rs\<newline>'', lit ''\<newline>'', lit ''x\<newline>'', lit ''y\<newline>''] [] 0 1 =
     ([(lit ''d.rs'', 1, lit ''x\<newline>y\<newline>'')], 0) \<and>
   extract_from_file [lit ''```python\<newline>'', lit ''name=e.py\<newline>'', lit ''x\<newline>'', lit ''y\<newline>''] [] 0 1 =
     ([(lit ''e.py'', 1, lit ''x\<newline>y\<newline>'')], 0)"
proof -
  let ?rest = "[lit ''x\<newline>'', lit ''y\<newline>'']"
  have c: "block_content ?rest = lit ''x\<newline>y\<newline>''"
    by (simp add: text_defs scan_defs)
  have r1: "\<forall>l \<in> set ?rest. FILE_END_RE l = None" by (simp add: text_defs scan_defs)
  have r2: "\<forall>l \<in> set ?rest. \<not> is_fence l" by (simp add: text_defs scan_defs)
  have r3: "\<forall>l \<in> set ?rest. plain_more l" by (simp add: text_defs scan_defs)
  have r4: "?rest = [] \<or> \<not> is_fence (hd ?rest)" by (simp add: text_defs scan_defs)
  have bl: "\<forall>l \<in> set [lit ''\<newline>'']. is_blank l" by (simp add: text_defs scan_defs)
  have 1: "FILE_BEGIN_RE (lit ''--- BEGIN FILE: a.txt ---\<newline>'') = Some (lit ''a.txt'')"
    by (simp add: text_defs scan_defs)
  have 2: "FILE_BEGIN_RE (lit ''```name=b.py\<newline>'') = None \<and>
           CODEFENCE_NAME_RE (lit ''```name=b.py\<newline>'') = Some (lit ''b.py'')"
    by (simp add: text_defs scan_defs)
  have 3: "FILE_BEGIN_RE (lit ''name=c.go\<newline>'') = None \<and>
           CODEFENCE_NAME_RE (lit ''name=c.go\<newline>'') = None \<and>
           INLINE_NAME_RE (lit ''name=c.go\<newline>'') = Some (lit ''c.go'') \<and>
           is_fence (lit ''```go\<newline>'')"
    by (simp add: text_defs scan_defs)
  have 4: "FILE_BEGIN_RE (lit ''name=d.rs\<newline>'') = None \<and>
           CODEFENCE_NAME_RE (lit ''name=d.rs\<newline>'') = None \<and>
           INLINE_NAME_RE (lit ''name=d.rs\<newline>'') = Some (lit ''d.rs'')"
    by (simp add: text_defs scan_defs)
  have 5: "is_fence (lit ''```python\<newline>'') \<and> CODEFENCE_NAME_RE (lit ''```python\<newline>'') = None \<and>
           INLINE_NAME_RE (lit ''name=e.py\<newline>'') = Some (lit ''e.py'')"
    by (simp add: text_defs scan_defs)
  have n: "normalize_path (lit ''a.txt'') = lit ''a.txt'' \<and> normalize_path (lit ''b.py'') = lit ''b.py'' \<and>
           normalize_path (lit ''c.go'') = lit ''c.go'' \<and> normalize_path (lit ''d.rs'') = lit ''d.rs'' \<and>
           normalize_path (lit ''e.py'') = lit ''e.py'' \<and> lit ''e.py'' \<noteq> []"
    by (simp add: text_defs scan_defs)
  note t = unterminated_block_captures_rest
  have a: "extract_from_file (lit ''--- BEGIN FILE: a.txt ---\<newline>'' # ?rest) [] 0 1 =
      ([(lit ''a.txt'', 1, lit ''x\<newline>y\<newline>'')], 0)"
    using t [where b = "lit ''--- BEGIN FILE: a.txt ---\<newline>''" and g = "lit ''a.txt''"
        and rest = ?rest and fm = "[]" and uc = 0 and idx = 1] 1 r1 c n
    by simp
  have b: "extract_from_file (lit ''```name=b.py\<newline>'' # ?rest) [] 0 1 =
      ([(lit ''b.py'', 1, lit ''x\<newline>y\<newline>'')], 0)"
    using t [where b = "lit ''```name=b.py\<newline>''" and g = "lit ''b.py''"
        and rest = ?rest and fm = "[]" and uc = 0 and idx = 1] 2 r2 c n
    by simp
  have cc: "extract_from_file (lit ''name=c.go\<newline>'' # [lit ''\<newline>''] @ lit ''```go\<newline>'' # ?rest) [] 0 1 =
      ([(lit ''c.go'', 1, lit ''x\<newline>y\<newline>'')], 0)"
    using t [where b = "lit ''name=c.go\<newline>''" and g = "lit ''c.go''" and rest = ?rest
        and fm = "[]" and uc = 0 and idx = 1 and blanks = "[lit ''\<newline>'']"
        and opener = "lit ''```go\<newline>''"] 3 r2 bl c n
    by simp
  have d: "extract_from_file (lit ''name=d.rs\<newline>'' # [lit ''\<newline>''] @ ?rest) [] 0 1 =
      ([(lit ''d.rs'', 1, lit ''x\<newline>y\<newline>'')], 0)"
    using t [where b = "lit ''name=d.rs\<newline>''" and g = "lit ''d.rs''" and rest = ?rest
        and fm = "[]" and uc = 0 and idx = 1 and blanks = "[lit ''\<newline>'']"] 4 r3 r4 bl c n
    by simp
  have e: "extract_from_file (lit ''```python\<newline>'' # lit ''name=e.py\<newline>'' # ?rest) [] 0 1 =
      ([(lit ''e.py'', 1, lit ''x\<newline>y\<newline>'')], 0)"
    using t [where b = "lit ''```python\<newline>''" and g = "lit ''e.py''" and rest = ?rest
        and fm = "[]" and uc = 0 and idx = 1 and nm = "lit ''name=e.py\<newline>''"] 5 r2 c n
    by simp
  from a b cc d e show ?thesis by simp
qed

subsection \<open>Fences\<close>

text \<open>
  C10, as stated, fails: a line that starts with three backticks and is not a named-fence
  opener is not accepted by the embedded-name recognizer when the name on the next line
  normalises to the empty string (\<^verbatim>\<open>if found_name:\<close> is false for it). The turn registers
  nothing and moves on by one line; the name line is then taken by the inline-name
  recognizer, whose unfenced body runs over the closing fence.
\<close>

theorem embedded_name_empty_declines:
  "is_fence (lit ''```python\<newline>'') \<and>
   CODEFENCE_NAME_RE (lit ''```python\<newline>'') = None \<and>
   INLINE_NAME_RE (lit ''name= \<newline>'') = Some (lit '' '') \<and>
   scan_step (lit ''```python\<newline>'') [lit ''name= \<newline>'', lit ''code\<newline>'', lit ''```\<newline>''] =
     (None, [lit ''name= \<newline>'', lit ''code\<newline>'', lit ''```\<newline>'']) \<and>
   captures [lit ''```python\<newline>'', lit ''name= \<newline>'', lit ''code\<newline>'', lit ''```\<newline>''] =
     [([], lit ''code\<newline>```\<newline>'')]"
  by (simp add: captures_step text_defs scan_defs)

text \<open>
  C10, amended. A line that starts with three backticks and is not a named-fence opener
  (it may carry an info string) opens an embedded-name block whenever the next line
  matches the inline-name pattern and its name normalises to a non-empty path. In each of
  the three fenced captures (embedded name, named fence, inline name followed by a
  fence) the first later line that starts with three backticks, whatever follows them,
  ends the body, is consumed and is not part of the content.
\<close>

theorem fenced_capture_rules:
  "(is_fence l \<and> CODEFENCE_NAME_RE l = None \<and> INLINE_NAME_RE l' = Some g \<and>
    normalize_path g \<noteq> [] \<longrightarrow>
      extract_from_file (l # l' # rest) fm uc idx =
        extract_from_file (snd (fence_body rest))
          (od_set fm (normalize_path g) (idx, block_content (fst (fence_body rest)))) uc idx) \<and>
   (is_fence l \<and> CODEFENCE_NAME_RE l = None \<and> INLINE_NAME_RE l' = Some g \<and>
    normalize_path g \<noteq> [] \<and> (\<forall>x \<in> set body. \<not> is_fence x) \<and> is_fence c \<longrightarrow>
      extract_from_file (l # l' # body @ c # tail) fm uc idx =
        extract_from_file tail (od_set fm (normalize_path g) (idx, block_content body)) uc idx) \<and>
   (FILE_BEGIN_RE l = None \<and> CODEFENCE_NAME_RE l = Some g \<and>
    (\<forall>x \<in> set body. \<not> is_fence x) \<and> is_fence c \<longrightarrow>
      extract_from_file (l # body @ c # tail) fm uc idx =
        extract_from_file tail (od_set fm (normalize_path g) (idx, block_content body)) uc idx) \<and>
   (FILE_BEGIN_RE l = None \<and> CODEFENCE_NAME_RE l = None \<and> INLINE_NAME_RE l = Some g \<and>
    (\<forall>x \<in> set blanks. is_blank x) \<and> is_fence opener \<and>
    (\<forall>x \<in> set body. \<not> is_fence x) \<and> is_fence c \<longrightarrow>
      extract_from_file (l # blanks @ opener # body @ c # tail) fm uc idx =
        extract_from_file tail (od_set fm (normalize_path g) (idx, block_content body)) uc idx)"
proof (intro conjI impI)
  assume a: "is_fence l \<and> CODEFENCE_NAME_RE l = None \<and> INLINE_NAME_RE l' = Some g \<and>
    normalize_path g \<noteq> []"
  then have "scan_step l (l' # rest) =
      (Some (normalize_path g, block_content (fst (fence_body rest))), snd (fence_body rest))"
    by (simp add: scan_step_embedded)
  then show "extract_from_file (l # l' # rest) fm uc idx =
      extract_from_file (snd (fence_body rest))
        (od_set fm (normalize_path g) (idx, block_content (fst (fence_body rest)))) uc idx"
    by (rule extract_from_file_step)
next
  assume a: "is_fence l \<and> CODEFENCE_NAME_RE l = None \<and> INLINE_NAME_RE l' = Some g \<and>
    normalize_path g \<noteq> [] \<and> (\<forall>x \<in> set body. \<not> is_fence x) \<and> is_fence c"
  then have "fence_body (body @ c # tail) = (body, tail)"
    by (intro fence_body_closed) simp_all
  with a have "scan_step l (l' # body @ c # tail) =
      (Some (normalize_path g, block_content body), tail)"
    by (simp add: scan_step_embedded)
  then show "extract_from_file (l # l' # body @ c # tail) fm uc idx =
      extract_from_file tail (od_set fm (normalize_path g) (idx, block_content body)) uc idx"
    by (rule extract_from_file_step)
next
  assume a: "FILE_BEGIN_RE l = None \<and> CODEFENCE_NAME_RE l = Some g \<and>
    (\<forall>x \<in> set body. \<not> is_fence x) \<and> is_fence c"
  then have "fence_body (body @ c # tail) = (body, tail)"
    by (intro fence_body_closed) simp_all
  with a have "scan_step l (body @ c # tail) =
      (Some (normalize_path g, block_content body), tail)"
    by (simp add: scan_step_named_fence)
  then show "extract_from_file (l # body @ c # tail) fm uc idx =
      extract_from_file tail (od_set fm (normalize_path g) (idx, block_content body)) uc idx"
    by (rule extract_from_file_step)
next
  assume a: "FILE_BEGIN_RE l = None \<and> CODEFENCE_NAME_RE l = None \<and> INLINE_NAME_RE l = Some g \<and>
    (\<forall>x \<in> set blanks. is_blank x) \<and> is_fence opener \<and>
    (\<forall>x \<in> set body. \<not> is_fence x) \<and> is_fence c"
  then have "fence_body (body @ c # tail) = (body, tail)"
    by (intro fence_body_closed) simp_all
  moreover from a have "inline_body (blanks @ opener # body @ c # tail) =
      fence_body (body @ c # tail)"
    by (intro inline_body_fenced) simp_all
  ultimately have "scan_step l (blanks @ opener # body @ c # tail) =
      (Some (normalize_path g, block_content body), tail)"
    using a by (simp add: scan_step_inline)
  then show "extract_from_file (l # blanks @ opener # body @ c # tail) fm uc idx =
      extract_from_file tail (od_set fm (normalize_path g) (idx, block_content body)) uc idx"
    by (rule extract_from_file_step)
qed

theorem fenced_capture_rules_witness:
  "extract_from_file [lit ''```python\<newline>'', lit ''name=e.py\<newline>'', lit ''x\<newline>'', lit ''```end\<newline>'', lit ''t\<newline>''] [] 0 1 =
     ([(lit ''e.py'', 1, lit ''x\<newline>'')], 0) \<and>
   extract_from_file [lit ''```name=b.py\<newline>'', lit ''x\<newline>'', lit ''```end\<newline>'', lit ''t\<newline>''] [] 0 1 =
     ([(lit ''b.py'', 1, lit ''x\<newline>'')], 0) \<and>
   extract_from_file [lit ''name=c.go\<newline>'', lit ''\<newline>'', lit ''```go\<newline>'', lit ''x\<newline>'', lit ''```end\<newline>'', lit ''t\<newline>''] [] 0 1 =
     ([(lit ''c.go'', 1, lit ''x\<newline>'')], 0)"
proof -
  let ?body = "[lit ''x\<newline>'']" and ?c = "lit ''```end\<newline>''" and ?tail = "[lit ''t\<newline>'']"
  have c: "block_content ?body = lit ''x\<newline>''" by (simp add: text_defs scan_defs)
  have bd: "\<forall>x \<in> set ?body. \<not> is_fence x" by (simp add: text_defs scan_defs)
  have cl: "is_fence ?c" by (simp add: text_defs scan_defs)
  have fb: "fence_body (?body @ ?c # ?tail) = (?body, ?tail)" by (simp add: text_defs scan_defs)
  have bl: "\<forall>l \<in> set [lit ''\<newline>'']. is_blank l" by (simp add: text_defs scan_defs)
  have 1: "is_fence (lit ''```python\<newline>'') \<and> CODEFENCE_NAME_RE (lit ''```python\<newline>'') = None \<and>
           INLINE_NAME_RE (lit ''name=e.py\<newline>'') = Some (lit ''e.py'')"
    by (simp add: text_defs scan_defs)
  have 2: "FILE_BEGIN_RE (lit ''```name=b.py\<newline>'') = None \<and>
           CODEFENCE_NAME_RE (lit ''```name=b.py\<newline>'') = Some (lit ''b.py'')"
    by (simp add: text_defs scan_defs)
  have 3: "FILE_BEGIN_RE (lit ''name=c.go\<newline>'') = None \<and>
           CODEFENCE_NAME_RE (lit ''name=c.go\<newline>'') = None \<and>
           INLINE_NAME_RE (lit ''name=c.go\<newline>'') = Some (lit ''c.go'') \<and>
           is_fence (lit ''```go\<newline>'')"
    by (simp add: text_defs scan_defs)
  have n: "normalize_path (lit ''b.py'') = lit ''b.py'' \<and>
           normalize_path (lit ''c.go'') = lit ''c.go'' \<and>
           normalize_path (lit ''e.py'') = lit ''e.py'' \<and> lit ''e.py'' \<noteq> []"
    by (simp add: text_defs scan_defs)
  have tl: "extract_from_file ?tail fm 0 1 = (fm, 0)" for fm
    by (simp add: extract_from_file_def extract_loop_step text_defs scan_defs)
  note t = fenced_capture_rules
  have a: "extract_from_file (lit ''```python\<newline>'' # lit ''name=e.py\<newline>'' # ?body @ ?c # ?tail) [] 0 1 =
      ([(lit ''e.py'', 1, lit ''x\<newline>'')], 0)"
    using t [where l = "lit ''```python\<newline>''" and l' = "lit ''name=e.py\<newline>''"
        and g = "lit ''e.py''" and body = ?body and c = ?c and tail = ?tail
        and rest = "?body @ ?c # ?tail" and fm = "[]" and uc = 0 and idx = 1] 1 bd cl c n tl fb
    by simp
  have b: "extract_from_file (lit ''```name=b.py\<newline>'' # ?body @ ?c # ?tail) [] 0 1 =
      ([(lit ''b.py'', 1, lit ''x\<newline>'')], 0)"
    using t [where l = "lit ''```name=b.py\<newline>''" and g = "lit ''b.py''"
        and body = ?body and c = ?c and tail = ?tail and fm = "[]" and uc = 0 and idx = 1]
      2 bd cl c n tl
    by simp
  have cc: "extract_from_file (lit ''name=c.go\<newline>'' # [lit ''\<newline>''] @ lit ''```go\<newline>'' # ?body @ ?c # ?tail) [] 0 1 =
      ([(lit ''c.go'', 1, lit ''x\<newline>'')], 0)"
    using t [where l = "lit ''name=c.go\<newline>''" and g = "lit ''c.go''"
        and blanks = "[lit ''\<newline>'']" and opener = "lit ''```go\<newline>''"
        and body = ?body and c = ?c and tail = ?tail and fm = "[]" and uc = 0 and idx = 1]
      3 bd cl bl c n tl
    by simp
  from a b cc show ?thesis by simp
qed

subsection \<open>The registry: later assignments win\<close>

text \<open>
  \<open>last_capture P bs\<close> is the content of the last block for the path \<open>P\<close> in the list
  \<open>bs\<close> of blocks in scan order, if there is one.
\<close>

lemma map_of_od_set: "map_of (od_set m k v) = (map_of m)(k \<mapsto> v)"
  by (induction m) (auto simp: fun_upd_twist)

lemma keys_od_set:
  "map fst (od_set m k v) = (if k \<in> fst ` set m then map fst m else map fst m @ [k])"
proof (induction m)
  case Nil
  show ?case by simp
next
  case (Cons kv m)
  show ?case
  proof (cases "fst kv = k")
    case True
    then show ?thesis by (cases kv) simp
  next
    case False
    with Cons show ?thesis by (cases kv) auto
  qed
qed

definition last_capture :: "ustr \<Rightarrow> (ustr \<times> ustr) list \<Rightarrow> ustr option" where
  "last_capture P bs =
     (let fs = filter (\<lambda>b. fst b = P) bs in if fs = [] then None else Some (snd (last fs)))"

lemma last_capture_Nil [simp]: "last_capture P [] = None"
  by (simp add: last_capture_def)

lemma last_capture_snoc:
  "last_capture P (bs @ [b]) = (if fst b = P then Some (snd b) else last_capture P bs)"
  by (simp add: last_capture_def)

lemma last_capture_None: "last_capture P bs = None \<longleftrightarrow> P \<notin> fst ` set bs"
  by (auto simp: last_capture_def Let_def filter_empty_conv)

lemma map_of_register_all:
  "map_of (foldl (register idx) fm bs) P =
     (case last_capture P bs of Some c \<Rightarrow> Some (idx, c) | None \<Rightarrow> map_of fm P)"
proof (induction bs rule: rev_induct)
  case Nil
  show ?case by simp
next
  case (snoc b bs)
  then show ?case
    by (simp add: register_def map_of_od_set last_capture_snoc)
qed

lemma map_of_extract_loop:
  "map_of (extract_loop ls fm idx) P =
     (case last_capture P (captures ls) of Some c \<Rightarrow> Some (idx, c) | None \<Rightarrow> map_of fm P)"
  by (simp add: extract_loop_captures map_of_register_all)

lemma parse_convos_untouched:
  "\<forall>p \<in> set ps. last_capture P (captures (rl p)) = None \<Longrightarrow>
   map_of (fst (parse_convos rl ps idx fm uc)) P = map_of fm P"
proof (induction ps arbitrary: idx fm uc)
  case Nil
  show ?case by simp
next
  case (Cons p ps)
  then show ?case
    by (simp add: extract_from_file_def map_of_extract_loop)
qed

lemma parse_convos_highest_index:
  assumes "j < length ps"
    and "last_capture P (captures (rl (ps ! j))) = Some c"
    and "\<forall>k. j < k \<and> k < length ps \<longrightarrow> last_capture P (captures (rl (ps ! k))) = None"
  shows "map_of (fst (parse_convos rl ps idx fm uc)) P = Some (idx + j, c)"
  using assms
proof (induction ps arbitrary: idx fm uc j)
  case Nil
  then show ?case by simp
next
  case (Cons p ps)
  show ?case
  proof (cases j)
    case 0
    have "\<forall>q \<in> set ps. last_capture P (captures (rl q)) = None"
    proof
      fix q assume "q \<in> set ps"
      then obtain k where "k < length ps" and "ps ! k = q" by (auto simp: in_set_conv_nth)
      with Cons.prems(3) [rule_format, of "Suc k"] 0 show "last_capture P (captures (rl q)) = None"
        by simp
    qed
    then have "map_of (fst (parse_convos rl ps (Suc idx) (extract_loop (rl p) fm idx) uc)) P =
        map_of (extract_loop (rl p) fm idx) P"
      by (rule parse_convos_untouched)
    with Cons.prems(2) 0 show ?thesis
      by (simp add: extract_from_file_def map_of_extract_loop)
  next
    case (Suc j')
    have "map_of (fst (parse_convos rl ps (Suc idx) (extract_loop (rl p) fm idx) uc)) P =
        Some (Suc idx + j', c)"
    proof (rule Cons.IH)
      show "j' < length ps" using Cons.prems(1) Suc by simp
      show "last_capture P (captures (rl (ps ! j'))) = Some c" using Cons.prems(2) Suc by simp
      show "\<forall>k. j' < k \<and> k < length ps \<longrightarrow> last_capture P (captures (rl (ps ! k))) = None"
      proof (intro allI impI)
        fix k assume "j' < k \<and> k < length ps"
        with Cons.prems(3) [rule_format, of "Suc k"] Suc
        show "last_capture P (captures (rl (ps ! k))) = None" by simp
      qed
    qed
    with Suc show ?thesis by (simp add: extract_from_file_def)
  qed
qed

text \<open>
  C1. The transcripts are passed to the extraction one after the other, the one at
  position \<open>j\<close> (from 0) of the processing order with the source-order index \<open>j + 1\<close>,
  all on one registry. If \<open>P\<close> is captured from the transcript at position \<open>j\<close> and from
  no transcript after it (so \<open>j + 1\<close> is the highest index at which \<open>P\<close> is captured,
  whatever lower indices capture it too), the record of \<open>P\<close> in the registry after the
  last transcript has the index \<open>j + 1\<close> and the content of the last block for \<open>P\<close> in
  that transcript's scan order.
\<close>

theorem last_wins:
  assumes "j < length ps"
    and "P \<in> fst ` set (captures (rl (ps ! j)))"
    and "\<forall>k. j < k \<and> k < length ps \<longrightarrow> P \<notin> fst ` set (captures (rl (ps ! k)))"
  shows "map_of (fst (parse_convos rl ps 1 fm uc)) P =
         Some (Suc j, snd (last (filter (\<lambda>b. fst b = P) (captures (rl (ps ! j))))))"
proof -
  let ?bs = "captures (rl (ps ! j))"
  from assms(2) have "last_capture P ?bs \<noteq> None" by (simp add: last_capture_None)
  then have c: "last_capture P ?bs = Some (snd (last (filter (\<lambda>b. fst b = P) ?bs)))"
    by (simp add: last_capture_def Let_def split: if_splits)
  have "map_of (fst (parse_convos rl ps 1 fm uc)) P =
      Some (1 + j, snd (last (filter (\<lambda>b. fst b = P) ?bs)))"
  proof (rule parse_convos_highest_index)
    show "j < length ps" by (rule assms(1))
    show "last_capture P ?bs = Some (snd (last (filter (\<lambda>b. fst b = P) ?bs)))" by (rule c)
    show "\<forall>k. j < k \<and> k < length ps \<longrightarrow> last_capture P (captures (rl (ps ! k))) = None"
      using assms(3) by (simp add: last_capture_None)
  qed
  then show ?thesis by simp
qed

text \<open>
  An example: the first transcript has a named-fence block for \<^verbatim>\<open>x.py\<close>, the second an
  explicit-marker block and then an inline-name block for the same path.
\<close>

definition convo1 :: "ustr list" where
  "convo1 = [lit ''```name=x.py\<newline>'', lit ''print(1)\<newline>'', lit ''```\<newline>'']"

definition convo2 :: "ustr list" where
  "convo2 = [lit ''--- BEGIN FILE: x.py ---\<newline>'', lit ''print(0)\<newline>'', lit ''--- END FILE: x.py ---\<newline>'',
             lit ''name=x.py\<newline>'', lit ''print(2)\<newline>'']"

definition read_demo :: "ustr \<Rightarrow> ustr list" where
  "read_demo p = (if p = lit ''convo-1.txt'' then convo1 else convo2)"

lemma cap1: "captures convo1 = [(lit ''x.py'', lit ''print(1)\<newline>'')]"
  by (simp add: convo1_def captures_step text_defs scan_defs)

lemma cap2: "captures convo2 = [(lit ''x.py'', lit ''print(0)\<newline>''), (lit ''x.py'', lit ''print(2)\<newline>'')]"
  by (simp add: convo2_def captures_step text_defs scan_defs)

theorem last_wins_witness:
  "lit ''x.py'' \<in> fst ` set (captures (read_demo (lit ''convo-1.txt''))) \<and>
   lit ''x.py'' \<in> fst ` set (captures (read_demo (lit ''convo-2.txt''))) \<and>
   map_of (fst (parse_convos read_demo [lit ''convo-1.txt'', lit ''convo-2.txt''] 1 [] 0))
     (lit ''x.py'') = Some (2, lit ''print(2)\<newline>'')"
proof -
  let ?ps = "[lit ''convo-1.txt'', lit ''convo-2.txt'']"
  have r1: "read_demo (lit ''convo-1.txt'') = convo1" by (simp add: read_demo_def)
  have r2: "read_demo (lit ''convo-2.txt'') = convo2" by (simp add: read_demo_def lit_def)
  have 1: "(1::nat) < length ?ps" by simp
  have 2: "lit ''x.py'' \<in> fst ` set (captures (read_demo (?ps ! 1)))"
    by (simp add: r2 cap2)
  have 3: "\<forall>k. 1 < k \<and> k < length ?ps \<longrightarrow>
      lit ''x.py'' \<notin> fst ` set (captures (read_demo (?ps ! k)))"
    by auto
  have a: "lit ''x.py'' \<in> fst ` set (captures (read_demo (lit ''convo-1.txt'')))"
    by (simp add: r1 cap1)
  have b: "lit ''x.py'' \<in> fst ` set (captures (read_demo (lit ''convo-2.txt'')))"
    by (simp add: r2 cap2)
  have c: "map_of (fst (parse_convos read_demo ?ps 1 [] 0)) (lit ''x.py'') =
      Some (2, lit ''print(2)\<newline>'')"
    using last_wins [OF 1 2 3, of "[]" 0] by (simp add: r2 cap2)
  show ?thesis by (intro conjI) (rule a, rule b, rule c)
qed

subsection \<open>The order of the registry\<close>

text \<open>
  \<open>first_seen ks\<close> keeps the first occurrence of every element of \<open>ks\<close>, in order, and
  \<open>all_captures\<close> are the blocks of all transcripts in processing order. The keys of the
  registry are in the order of their first capture, and an assignment to a key that is
  present keeps the key's position (\<open>keys_od_set\<close>).
\<close>

definition first_seen :: "'a list \<Rightarrow> 'a list" where
  "first_seen ks = rev (remdups (rev ks))"

lemma set_first_seen [simp]: "set (first_seen ks) = set ks"
  by (simp add: first_seen_def)

lemma distinct_first_seen [simp]: "distinct (first_seen ks)"
  by (simp add: first_seen_def)

lemma first_seen_snoc:
  "first_seen (ks @ [k]) = (if k \<in> set ks then first_seen ks else first_seen ks @ [k])"
  by (simp add: first_seen_def)

lemma first_seen_distinct: "distinct ks \<Longrightarrow> first_seen ks = ks"
  by (simp add: first_seen_def distinct_remdups_id)

lemma first_seen_absorb: "first_seen (first_seen A @ B) = first_seen (A @ B)"
proof (induction B rule: rev_induct)
  case Nil
  show ?case by (simp add: first_seen_distinct)
next
  case (snoc k B)
  have "first_seen ((first_seen A @ B) @ [k]) = first_seen ((A @ B) @ [k])"
    unfolding first_seen_snoc using snoc by simp
  then show ?case by simp
qed

lemma keys_register_all:
  "distinct (map fst fm) \<Longrightarrow>
   map fst (foldl (register idx) fm bs) = first_seen (map fst fm @ map fst bs)"
proof (induction bs rule: rev_induct)
  case Nil
  then show ?case by (simp add: first_seen_distinct)
next
  case (snoc b bs)
  then have ih: "map fst (foldl (register idx) fm bs) = first_seen (map fst fm @ map fst bs)"
    by simp
  have "fst ` set (foldl (register idx) fm bs) = set (map fst (foldl (register idx) fm bs))"
    by simp
  also have "\<dots> = set (map fst fm @ map fst bs)" unfolding ih by simp
  finally have s: "fst ` set (foldl (register idx) fm bs) = set (map fst fm @ map fst bs)" .
  have "map fst (foldl (register idx) fm (bs @ [b])) =
      (if fst b \<in> set (map fst fm @ map fst bs) then first_seen (map fst fm @ map fst bs)
       else first_seen (map fst fm @ map fst bs) @ [fst b])"
    by (simp only: foldl_append foldl.simps register_def keys_od_set s ih)
  also have "\<dots> = first_seen ((map fst fm @ map fst bs) @ [fst b])"
    by (simp only: first_seen_snoc)
  finally show ?case by simp
qed

definition all_captures :: "(ustr \<Rightarrow> ustr list) \<Rightarrow> ustr list \<Rightarrow> (ustr \<times> ustr) list" where
  "all_captures rl ps = concat (map (\<lambda>p. captures (rl p)) ps)"

lemma keys_parse_convos:
  "distinct (map fst fm) \<Longrightarrow>
   map fst (fst (parse_convos rl ps idx fm uc)) =
     first_seen (map fst fm @ map fst (all_captures rl ps))"
proof (induction ps arbitrary: idx fm uc)
  case Nil
  then show ?case by (simp add: all_captures_def first_seen_distinct)
next
  case (Cons p ps)
  let ?fm' = "extract_loop (rl p) fm idx"
  have k: "map fst ?fm' = first_seen (map fst fm @ map fst (captures (rl p)))"
    using Cons.prems by (simp add: extract_loop_captures keys_register_all)
  then have d: "distinct (map fst ?fm')" by simp
  have "map fst (fst (parse_convos rl ps (Suc idx) ?fm' uc)) =
      first_seen (map fst ?fm' @ map fst (all_captures rl ps))"
    using d by (rule Cons.IH)
  also have "\<dots> = first_seen ((map fst fm @ map fst (captures (rl p))) @ map fst (all_captures rl ps))"
    unfolding k by (rule first_seen_absorb)
  finally show ?case
    by (simp add: extract_from_file_def all_captures_def)
qed

subsection \<open>Unknown fragments\<close>

text \<open>
  \<open>named_paths ls\<close> are the normalised names that the lines of \<open>ls\<close> carry in a begin
  marker, a named fence or an inline name.
\<close>

definition named_paths :: "ustr list \<Rightarrow> ustr set" where
  "named_paths ls =
     (\<Union>l \<in> set ls. normalize_path `
        (set_option (FILE_BEGIN_RE l) \<union> set_option (CODEFENCE_NAME_RE l) \<union>
         set_option (INLINE_NAME_RE l)))"

lemma named_paths_mono: "set ls \<subseteq> set ls' \<Longrightarrow> named_paths ls \<subseteq> named_paths ls'"
  by (auto simp: named_paths_def)

lemma set_skip_if: "set (skip_if stop ls) \<subseteq> set ls"
  by (auto simp: skip_if_def split: list.splits if_splits)

lemma set_skip_dropWhile: "set (skip_if stop (dropWhile P ls)) \<subseteq> set ls"
  using set_skip_if [of stop "dropWhile P ls"] set_dropWhileD [of _ P ls] by blast

lemma set_fence_body: "set (snd (fence_body ls)) \<subseteq> set ls"
  unfolding fence_body_def snd_conv by (rule set_skip_dropWhile)

lemma set_explicit_body: "set (snd (explicit_body ls)) \<subseteq> set ls"
  unfolding explicit_body_def snd_conv by (rule set_skip_dropWhile)

lemma set_inline_body: "set (snd (inline_body ls)) \<subseteq> set ls"
proof (cases "dropWhile is_blank ls")
  case Nil
  show ?thesis unfolding inline_body_def Let_def Nil by simp
next
  case (Cons l ls2)
  have a: "set (dropWhile is_blank ls) \<subseteq> set ls"
    using set_dropWhileD [of _ is_blank ls] by blast
  show ?thesis
  proof (cases "is_fence l")
    case True
    have "set (snd (fence_body ls2)) \<subseteq> set ls2" by (rule set_fence_body)
    with a True show ?thesis unfolding inline_body_def Let_def Cons by auto
  next
    case False
    have "set (dropWhile plain_more (l # ls2)) \<subseteq> set (l # ls2)"
      using set_dropWhileD [of _ plain_more "l # ls2"] by blast
    with a False show ?thesis unfolding inline_body_def Let_def Cons
      by (auto simp del: dropWhile.simps)
  qed
qed

lemma set_scan_step: "set (snd (scan_step line rest)) \<subseteq> set rest"
proof -
  have e: "set (snd (explicit_body rest)) \<subseteq> set rest" by (rule set_explicit_body)
  have f: "set (snd (fence_body rest)) \<subseteq> set rest" by (rule set_fence_body)
  have i: "set (snd (inline_body rest)) \<subseteq> set rest" by (rule set_inline_body)
  have "set (snd (fence_body (tl rest))) \<subseteq> set (tl rest)" by (rule set_fence_body)
  moreover have "set (tl rest) \<subseteq> set rest" by (cases rest) auto
  ultimately have t: "set (snd (fence_body (tl rest))) \<subseteq> set rest" by blast
  from e f i t show ?thesis
    by (simp add: scan_step_def Let_def split_beta split: option.split)
qed

lemma scan_step_named:
  assumes "fst (scan_step line rest) = Some b"
  shows "fst b \<in> named_paths (line # rest)"
proof (cases "FILE_BEGIN_RE line")
  case (Some g)
  with assms show ?thesis
    by (auto simp: scan_step_explicit named_paths_def)
next
  case None
  note b = None
  show ?thesis
  proof (cases "CODEFENCE_NAME_RE line")
    case (Some g)
    with b assms show ?thesis
      by (auto simp: scan_step_named_fence named_paths_def)
  next
    case None
    note c = None
    show ?thesis
    proof (cases "INLINE_NAME_RE line")
      case (Some g)
      with b c assms show ?thesis
        by (auto simp: scan_step_inline named_paths_def)
    next
      case None
      with b c assms obtain l r g where "rest = l # r" and "INLINE_NAME_RE l = Some g"
        and "fst b = normalize_path g"
        by (auto simp: scan_step_def Let_def split_beta split: if_splits list.splits option.splits)
      then show ?thesis by (auto simp: named_paths_def)
    qed
  qed
qed

lemma captures_named: "fst ` set (captures ls) \<subseteq> named_paths ls"
proof (induction ls rule: scan_induct)
  case Nil
  show ?case by simp
next
  case (Step line rest)
  have "named_paths (snd (scan_step line rest)) \<subseteq> named_paths (line # rest)"
    by (rule named_paths_mono) (use set_scan_step [of line rest] in auto)
  with Step have r: "fst ` set (captures (snd (scan_step line rest))) \<subseteq> named_paths (line # rest)"
    by blast
  show ?case
  proof (cases "fst (scan_step line rest)")
    case None
    with r show ?thesis by (simp add: captures_step)
  next
    case (Some b)
    then have "fst b \<in> named_paths (line # rest)" by (rule scan_step_named)
    with r Some show ?thesis by (simp add: captures_step)
  qed
qed

lemma keys_register_set:
  "fst ` set (foldl (register idx) fm bs) = fst ` set fm \<union> fst ` set bs"
proof (induction bs rule: rev_induct)
  case Nil
  show ?case by simp
next
  case (snoc b bs)
  have "fst ` set (od_set m k v) = insert k (fst ` set m)" for m :: files_map and k v
    using keys_od_set [of m k v] by (metis (no_types, lifting) insert_absorb list.set_map
        set_append list.simps(15) Un_insert_right sup_bot.right_neutral empty_set)
  with snoc show ?case by (simp add: register_def)
qed

lemma keys_extract_loop:
  "fst ` set (extract_loop ls fm idx) \<subseteq> fst ` set fm \<union> named_paths ls"
  using captures_named [of ls] by (auto simp: extract_loop_captures keys_register_set)

lemma parse_convos_keys:
  "fst ` set (fst (parse_convos rl ps idx fm uc)) \<subseteq>
     fst ` set fm \<union> (\<Union>p \<in> set ps. named_paths (rl p))"
proof (induction ps arbitrary: idx fm uc)
  case Nil
  show ?case by simp
next
  case (Cons p ps)
  let ?fm' = "extract_loop (rl p) fm idx"
  have e: "parse_convos rl (p # ps) idx fm uc = parse_convos rl ps (Suc idx) ?fm' uc"
    by (simp add: extract_from_file_def)
  have 1: "fst ` set (fst (parse_convos rl ps (Suc idx) ?fm' uc)) \<subseteq>
      fst ` set ?fm' \<union> (\<Union>q \<in> set ps. named_paths (rl q))"
    by (rule Cons.IH)
  have 2: "fst ` set ?fm' \<subseteq> fst ` set fm \<union> named_paths (rl p)"
    by (rule keys_extract_loop)
  have 3: "(\<Union>q \<in> set (p # ps). named_paths (rl q)) =
      named_paths (rl p) \<union> (\<Union>q \<in> set ps. named_paths (rl q))"
    by simp
  show ?case
    unfolding e 3 by (rule order_trans [OF 1]) (use 2 in blast)
qed

lemma parse_convos_counter: "snd (parse_convos rl ps idx fm uc) = uc"
  by (induction ps arbitrary: idx fm) (simp_all add: extract_from_file_def)


text \<open>An example transcript that names a path under \<^verbatim>\<open>unknowns/\<close> itself.\<close>

definition unk_demo :: "ustr list" where
  "unk_demo = [lit ''name=unknowns/file_1.txt\<newline>'', lit ''x\<newline>'']"

lemma cap_unk: "captures unk_demo = [(lit ''unknowns/file_1.txt'', lit ''x\<newline>'')]"
  by (simp add: unk_demo_def captures_step text_defs scan_defs)

text \<open>
  C9, as stated, fails: the extraction pass does register content under a name of the
  placeholder form (\<^verbatim>\<open>file_N.txt\<close> under \<^verbatim>\<open>unknowns/\<close>) when a transcript carries that name.
  The unknowns counter comes back unchanged all the same.
\<close>

theorem placeholder_name_registered:
  "extract_from_file unk_demo [] 0 1 = ([(lit ''unknowns/file_1.txt'', 1, lit ''x\<newline>'')], 0)"
  unfolding extract_from_file_def extract_loop_captures cap_unk
  by (simp add: register_def)

text \<open>
  C9, amended. The extraction pass returns its unknowns counter unchanged, and every key
  that it adds to the registry is the normalised name carried by a line of the transcript:
  no name is generated. The same holds over all transcripts of a run of the loop.
\<close>

theorem no_generated_names:
  "snd (extract_from_file ls fm uc idx) = uc \<and>
   fst ` set (fst (extract_from_file ls fm uc idx)) \<subseteq> fst ` set fm \<union> named_paths ls \<and>
   snd (parse_convos rl ps idx fm uc) = uc \<and>
   fst ` set (fst (parse_convos rl ps idx fm uc)) \<subseteq>
     fst ` set fm \<union> (\<Union>p \<in> set ps. named_paths (rl p))"
proof (intro conjI)
  show "snd (extract_from_file ls fm uc idx) = uc" by (simp add: extract_from_file_def)
  show "fst ` set (fst (extract_from_file ls fm uc idx)) \<subseteq> fst ` set fm \<union> named_paths ls"
    unfolding extract_from_file_def fst_conv by (rule keys_extract_loop)
  show "snd (parse_convos rl ps idx fm uc) = uc" by (rule parse_convos_counter)
  show "fst ` set (fst (parse_convos rl ps idx fm uc)) \<subseteq>
      fst ` set fm \<union> (\<Union>p \<in> set ps. named_paths (rl p))"
    by (rule parse_convos_keys)
qed

theorem no_generated_names_witness:
  "snd (extract_from_file unk_demo [] 7 1) = 7 \<and>
   fst ` set (fst (extract_from_file unk_demo [] 7 1)) \<subseteq> named_paths unk_demo \<and>
   named_paths unk_demo = {lit ''unknowns/file_1.txt''}"
proof -
  note t = no_generated_names [where ls = unk_demo and fm = "[]" and uc = 7 and idx = 1]
  from t have 1: "snd (extract_from_file unk_demo [] 7 1) = 7" by simp
  from t have 2: "fst ` set (fst (extract_from_file unk_demo [] 7 1)) \<subseteq> named_paths unk_demo"
    by simp
  have 3: "named_paths unk_demo = {lit ''unknowns/file_1.txt''}"
    by (simp add: named_paths_def unk_demo_def text_defs scan_defs)
  show ?thesis by (intro conjI) (rule 1, rule 2, rule 3)
qed

subsection \<open>Root markers in paths\<close>


subsection \<open>Empty paths\<close>

text \<open>
  C3. A block whose name normalises to the empty string is registered by the explicit,
  named-fence and inline-name recognizers like any other: the line \<^verbatim>\<open>name= \<close> (a space
  after the equals sign), or a begin marker with nothing but spaces for a path, stores a
  record under the empty path. Only the embedded-name recognizer declines an empty name
  (last conjunct).
\<close>

theorem empty_path_is_registered:
  "extract_from_file [lit ''name= \<newline>'', lit ''x\<newline>''] [] 0 1 = ([([], 1, lit ''x\<newline>'')], 0) \<and>
   extract_from_file [lit ''--- BEGIN FILE:  ---\<newline>'', lit ''x\<newline>''] [] 0 1 =
     ([([], 1, lit ''x\<newline>'')], 0) \<and>
   scan_step (lit ''```\<newline>'') [lit ''name= \<newline>'', lit ''x\<newline>''] =
     (None, [lit ''name= \<newline>'', lit ''x\<newline>''])"
proof -
  have 1: "extract_from_file [lit ''name= \<newline>'', lit ''x\<newline>''] [] 0 1 =
      ([([], 1, lit ''x\<newline>'')], 0)"
    by (simp add: extract_from_file_def extract_loop_step register_def text_defs scan_defs)
  have 2: "extract_from_file [lit ''--- BEGIN FILE:  ---\<newline>'', lit ''x\<newline>''] [] 0 1 =
      ([([], 1, lit ''x\<newline>'')], 0)"
    by (simp add: extract_from_file_def extract_loop_step register_def text_defs scan_defs)
  have 3: "scan_step (lit ''```\<newline>'') [lit ''name= \<newline>'', lit ''x\<newline>''] =
      (None, [lit ''name= \<newline>'', lit ''x\<newline>''])"
    by (simp add: text_defs scan_defs)
  show ?thesis by (intro conjI) (rule 1, rule 2, rule 3)
qed

subsection \<open>A registered path and the report\<close>


end
